theory Spec2Isabelle
  imports Main "HOL-Library.Word" "HOL-Library.AList" "HOL-Library.List_Lexorder"
begin

section \<open>The tag index of roaring-tags (package tagbox)\<close>

text \<open>
  The package keeps, for every tag name, a roaring bitmap of object identifiers, and one
  more bitmap \<open>allObjects\<close>. A roaring bitmap is a set of unsigned 32-bit integers; the
  library that implements it is not part of the package, so a bitmap is modelled by the set
  it denotes: \<open>Add\<close> is \<open>insert\<close>, \<open>Remove\<close> is set difference with a singleton, \<open>And\<close>,
  \<open>Or\<close> and \<open>AndNot\<close> are intersection, union and difference, \<open>GetCardinality\<close> is
  \<open>card\<close>, and \<open>Clone\<close> is the identity on values.

  A cardinality is a natural number: a set of 32-bit identifiers has at most \<open>2^32\<close>
  members, which \<open>uint64\<close> holds without wrapping.

  The Go map \<open>tags\<close> is an association list with \<open>map_of\<close> as lookup, \<open>AList.update\<close> as
  assignment and \<open>AList.delete\<close> as \<open>delete\<close>; a \<open>range\<close> loop visits the list in its order.
  Go leaves the iteration order of a map open, and every order is some list. A Go map
  holds a key once; every list that arises from a new index has distinct keys.

  A method with two results returns a pair of the index it leaves and its error (\<open>None\<close> is
  \<open>nil\<close>), or a sum of its error and its value when it does not write the index.

  The mutex, the save trigger sent on \<open>SaveChan\<close>, the asynchronous \<open>redis.Del\<close>, the save
  worker and the snapshot timer do not write the index (the map and \<open>allObjects\<close>) and are
  left out.
\<close>

type_synonym bitmap = "32 word set"

datatype error =
    External string
  | RedisConnectionFailed error
  | RedisScanFailed error
  | TagError string error
  | RecoverCompletedWithErrors "error list"
  | SerializeTagFailed string error
  | LoadTagFailed string error
  | TagNotFound string
  | DeserializationFailed error
  | NotRequiresExactlyOneTag
  | UnknownOperation string
  | Panic string

record Config =
  RedisAddr :: string
  RedisPassword :: string
  RedisDB :: int
  KeyPrefix :: string
  AutoSave :: bool
  EnableSnapshot :: bool
  SnapshotPath :: string
  SnapshotInterval :: int
  CacheResults :: bool

record TagSystem =
  tags :: "(string \<times> bitmap) list"
  allObjects :: bitmap
  config :: Config

record QueryOp =
  Type :: string
  Tags :: "string list"

definition DefaultConfig :: Config where
  "DefaultConfig =
     \<lparr>RedisAddr = ''localhost:6379'', RedisPassword = [], RedisDB = 0, KeyPrefix = ''tags:'',
      AutoSave = True, EnableSnapshot = False, SnapshotPath = [],
      SnapshotInterval = 5 * 60000000000, CacheResults = False\<rparr>"

subsection \<open>The world outside the package\<close>

text \<open>
  Serialisation of bitmaps (\<open>WriteTo\<close>, \<open>ReadFrom\<close>), JSON encoding, the file system and the
  Redis client are libraries and services outside the package. They are parameters of the
  model: \<open>'b\<close> is the serialised form of a bitmap, \<open>'f\<close> the content of a file, and \<open>'w\<close> the
  state of the outside world (files and Redis keys) at the moment of a call. No code of the
  package looks inside a byte string.
\<close>

datatype 'b reply = Nil | Failed error | Bytes 'b

record ('b, 'f, 'w) env =
  WriteTo :: "bitmap \<Rightarrow> error + 'b"
  ReadFrom :: "'b \<Rightarrow> error + bitmap"
  json_Marshal :: "(string \<times> 'b) list \<Rightarrow> error + 'f"
  json_Unmarshal :: "'f \<Rightarrow> error + (string \<times> 'b) list"
  os_WriteFile :: "'w \<Rightarrow> string \<Rightarrow> 'f \<Rightarrow> 'w \<times> error option"
  os_ReadFile :: "'w \<Rightarrow> string \<Rightarrow> error + 'f"
  redis_Ping :: "'w \<Rightarrow> error option"
  redis_Scan :: "'w \<Rightarrow> string \<Rightarrow> string list \<times> error option"
  redis_Get :: "'w \<Rightarrow> string \<Rightarrow> 'b reply"

subsection \<open>Construction and mutation (tagbox.go)\<close>

definition New :: "('b, 'f, 'w) env \<Rightarrow> 'w \<Rightarrow> Config \<Rightarrow> error + TagSystem" where
  "New e w cfg =
     (case redis_Ping e w of
        Some err \<Rightarrow> Inl (RedisConnectionFailed err)
      | None \<Rightarrow> Inr \<lparr>tags = [], allObjects = {}, config = cfg\<rparr>)"

definition AddTag :: "TagSystem \<Rightarrow> 32 word \<Rightarrow> string \<Rightarrow> TagSystem \<times> error option" where
  "AddTag ts objectID tag =
     (let bitmap = (case map_of (tags ts) tag of None \<Rightarrow> {} | Some b \<Rightarrow> b)
      in (ts\<lparr>tags := AList.update tag (insert objectID bitmap) (tags ts),
              allObjects := insert objectID (allObjects ts)\<rparr>, None))"

definition RemoveTag :: "TagSystem \<Rightarrow> 32 word \<Rightarrow> string \<Rightarrow> TagSystem \<times> error option" where
  "RemoveTag ts objectID tag =
     (case map_of (tags ts) tag of
        None \<Rightarrow> (ts, None)
      | Some b \<Rightarrow>
          (let bitmap = b - {objectID}
           in if card bitmap = 0
              then (ts\<lparr>tags := AList.delete tag (tags ts)\<rparr>, None)
              else (ts\<lparr>tags := AList.update tag bitmap (tags ts)\<rparr>, None)))"

text \<open>The body of the loop of \<open>BatchAddTags\<close>: one tag receives the object.\<close>

definition addToTag :: "32 word \<Rightarrow> (string \<times> bitmap) list \<Rightarrow> string \<Rightarrow> (string \<times> bitmap) list" where
  "addToTag objectID m tag =
     (let bitmap = (case map_of m tag of None \<Rightarrow> {} | Some b \<Rightarrow> b)
      in AList.update tag (insert objectID bitmap) m)"

definition BatchAddTags :: "TagSystem \<Rightarrow> 32 word \<Rightarrow> string list \<Rightarrow> TagSystem \<times> error option" where
  "BatchAddTags ts objectID tagNames =
     (ts\<lparr>tags := foldl (addToTag objectID) (tags ts) tagNames,
          allObjects := insert objectID (allObjects ts)\<rparr>, None)"

text \<open>
  \<open>BatchAddObjectsToTag\<close> fetches or creates the tag's bitmap before its loop, and the loop
  adds each object to that bitmap and to \<open>allObjects\<close>. The bitmap is shared with the map,
  so the entry of the map holds what the loop has built.
\<close>

definition BatchAddObjectsToTag ::
  "TagSystem \<Rightarrow> 32 word list \<Rightarrow> string \<Rightarrow> TagSystem \<times> error option" where
  "BatchAddObjectsToTag ts objectIDs tag =
     (let bitmap0 = (case map_of (tags ts) tag of None \<Rightarrow> {} | Some b \<Rightarrow> b);
          (bitmap, allObjs) =
             foldl (\<lambda>(b, a) objectID. (insert objectID b, insert objectID a))
                   (bitmap0, allObjects ts) objectIDs
      in (ts\<lparr>tags := AList.update tag bitmap (tags ts), allObjects := allObjs\<rparr>, None))"

definition HasTag :: "TagSystem \<Rightarrow> 32 word \<Rightarrow> string \<Rightarrow> bool" where
  "HasTag ts objectID tag =
     (case map_of (tags ts) tag of None \<Rightarrow> False | Some bitmap \<Rightarrow> objectID \<in> bitmap)"

definition GetAllTags :: "TagSystem \<Rightarrow> string list" where
  "GetAllTags ts = map fst (tags ts)"

definition GetTagCount :: "TagSystem \<Rightarrow> string \<Rightarrow> error + nat" where
  "GetTagCount ts tag =
     (case map_of (tags ts) tag of None \<Rightarrow> Inr 0 | Some bitmap \<Rightarrow> Inr (card bitmap))"

subsection \<open>Queries (query.go)\<close>

fun intersectRest :: "TagSystem \<Rightarrow> bitmap \<Rightarrow> string list \<Rightarrow> error + bitmap" where
  "intersectRest ts result [] = Inr result"
| "intersectRest ts result (tag # rest) =
     (case map_of (tags ts) tag of
        None \<Rightarrow> Inr {}
      | Some bitmap \<Rightarrow> intersectRest ts (result \<inter> bitmap) rest)"

definition QueryAnd :: "TagSystem \<Rightarrow> string list \<Rightarrow> error + bitmap" where
  "QueryAnd ts tagNames =
     (case tagNames of
        [] \<Rightarrow> Inr {}
      | first # rest \<Rightarrow>
          (case map_of (tags ts) first of
             None \<Rightarrow> Inr {}
           | Some firstBitmap \<Rightarrow> intersectRest ts firstBitmap rest))"

fun unionAll :: "TagSystem \<Rightarrow> bitmap \<Rightarrow> string list \<Rightarrow> bitmap" where
  "unionAll ts result [] = result"
| "unionAll ts result (tag # rest) =
     (case map_of (tags ts) tag of
        None \<Rightarrow> unionAll ts result rest
      | Some bitmap \<Rightarrow> unionAll ts (result \<union> bitmap) rest)"

definition QueryOr :: "TagSystem \<Rightarrow> string list \<Rightarrow> error + bitmap" where
  "QueryOr ts tagNames = Inr (unionAll ts {} tagNames)"

definition queryAndLocked :: "TagSystem \<Rightarrow> string list \<Rightarrow> error + bitmap" where
  "queryAndLocked ts tagNames =
     (case tagNames of
        [] \<Rightarrow> Inr {}
      | first # rest \<Rightarrow>
          (case map_of (tags ts) first of
             None \<Rightarrow> Inr {}
           | Some firstBitmap \<Rightarrow> intersectRest ts firstBitmap rest))"

definition queryOrLocked :: "TagSystem \<Rightarrow> string list \<Rightarrow> error + bitmap" where
  "queryOrLocked ts tagNames = Inr (unionAll ts {} tagNames)"

definition queryNotLocked :: "TagSystem \<Rightarrow> string \<Rightarrow> bitmap" where
  "queryNotLocked ts tag =
     (case map_of (tags ts) tag of
        None \<Rightarrow> allObjects ts
      | Some bitmap \<Rightarrow> allObjects ts - bitmap)"

text \<open>
  The \<open>switch\<close> of \<open>ComplexQuery\<close>: the partial result of one operation, or the error with
  which the whole query returns.
\<close>

definition evalOp :: "TagSystem \<Rightarrow> QueryOp \<Rightarrow> error + bitmap" where
  "evalOp ts qop =
     (if Type qop = ''AND'' then queryAndLocked ts (Tags qop)
      else if Type qop = ''OR'' then queryOrLocked ts (Tags qop)
      else if Type qop = ''NOT'' then
        (case Tags qop of
           [tag] \<Rightarrow> Inr (queryNotLocked ts tag)
         | _ \<Rightarrow> Inl NotRequiresExactlyOneTag)
      else Inl (UnknownOperation (Type qop)))"

text \<open>
  The loop of \<open>ComplexQuery\<close> with its index \<open>i\<close> and the variable \<open>result\<close>, a pointer that
  is nil (\<open>None\<close>) until the first operation has been evaluated. Calling \<open>And\<close> on a nil
  bitmap would panic.
\<close>

fun complexLoop :: "TagSystem \<Rightarrow> nat \<Rightarrow> bitmap option \<Rightarrow> QueryOp list \<Rightarrow> error + bitmap option" where
  "complexLoop ts i result [] = Inr result"
| "complexLoop ts i result (qop # rest) =
     (case evalOp ts qop of
        Inl err \<Rightarrow> Inl err
      | Inr partial \<Rightarrow>
          (if i = 0 then complexLoop ts (Suc i) (Some partial) rest
           else (case result of
                   None \<Rightarrow> Inl (Panic ''nil pointer dereference'')
                 | Some r \<Rightarrow> complexLoop ts (Suc i) (Some (r \<inter> partial)) rest)))"

definition ComplexQuery :: "TagSystem \<Rightarrow> QueryOp list \<Rightarrow> error + bitmap option" where
  "ComplexQuery ts ops =
     (if length ops = 0 then Inr (Some {}) else complexLoop ts 0 None ops)"

subsection \<open>The queries on a store of bitmap objects\<close>

text \<open>
  The functions above give what a query returns. \<open>ComplexQuery\<close> and its helpers change
  bitmaps in place (\<open>And\<close>, \<open>Or\<close>, \<open>AndNot\<close>), so whether they leave the index as it was
  depends on which bitmap objects they change. For this they are modelled once more on an
  explicit store: a bitmap object is an address, the store maps each address to the set the
  object holds, \<open>NewBitmap\<close> and \<open>Clone\<close> allocate the next free address, and \<open>And\<close>, \<open>Or\<close>
  and \<open>AndNot\<close> overwrite the set at the address of their receiver. The struct holds the
  addresses of its bitmaps. \<open>index_of\<close> reads the index held by a struct in a store;
  \<open>allocated\<close> says that every bitmap of the struct is an object of the store; \<open>frame\<close>
  relates two stores of which the second has kept every object of the first unchanged.
\<close>

type_synonym addr = nat

record store =
  cells :: "addr \<Rightarrow> bitmap"
  free :: addr

record TagSystemRefs =
  tagsRef :: "(string \<times> addr) list"
  allObjectsRef :: addr

definition roaring_NewBitmap :: "store \<Rightarrow> store \<times> addr" where
  "roaring_NewBitmap s = (s\<lparr>cells := (cells s)(free s := {}), free := Suc (free s)\<rparr>, free s)"

definition bitmap_Clone :: "store \<Rightarrow> addr \<Rightarrow> store \<times> addr" where
  "bitmap_Clone s a = (s\<lparr>cells := (cells s)(free s := cells s a), free := Suc (free s)\<rparr>, free s)"

definition bitmap_And :: "store \<Rightarrow> addr \<Rightarrow> addr \<Rightarrow> store" where
  "bitmap_And s a b = s\<lparr>cells := (cells s)(a := cells s a \<inter> cells s b)\<rparr>"

definition bitmap_Or :: "store \<Rightarrow> addr \<Rightarrow> addr \<Rightarrow> store" where
  "bitmap_Or s a b = s\<lparr>cells := (cells s)(a := cells s a \<union> cells s b)\<rparr>"

definition bitmap_AndNot :: "store \<Rightarrow> addr \<Rightarrow> addr \<Rightarrow> store" where
  "bitmap_AndNot s a b = s\<lparr>cells := (cells s)(a := cells s a - cells s b)\<rparr>"

fun intersectRest_store :: "TagSystemRefs \<Rightarrow> store \<Rightarrow> addr \<Rightarrow> string list \<Rightarrow> store \<times> (error + addr)" where
  "intersectRest_store rs s result [] = (s, Inr result)"
| "intersectRest_store rs s result (tag # rest) =
     (case map_of (tagsRef rs) tag of
        None \<Rightarrow> (case roaring_NewBitmap s of (s', new) \<Rightarrow> (s', Inr new))
      | Some bitmap \<Rightarrow> intersectRest_store rs (bitmap_And s result bitmap) result rest)"

definition queryAndLocked_store :: "TagSystemRefs \<Rightarrow> store \<Rightarrow> string list \<Rightarrow> store \<times> (error + addr)" where
  "queryAndLocked_store rs s tagNames =
     (case tagNames of
        [] \<Rightarrow> (case roaring_NewBitmap s of (s', new) \<Rightarrow> (s', Inr new))
      | first # rest \<Rightarrow>
          (case map_of (tagsRef rs) first of
             None \<Rightarrow> (case roaring_NewBitmap s of (s', new) \<Rightarrow> (s', Inr new))
           | Some firstBitmap \<Rightarrow>
               (case bitmap_Clone s firstBitmap of (s', result) \<Rightarrow> intersectRest_store rs s' result rest)))"

fun unionAll_store :: "TagSystemRefs \<Rightarrow> store \<Rightarrow> addr \<Rightarrow> string list \<Rightarrow> store" where
  "unionAll_store rs s result [] = s"
| "unionAll_store rs s result (tag # rest) =
     (case map_of (tagsRef rs) tag of
        None \<Rightarrow> unionAll_store rs s result rest
      | Some bitmap \<Rightarrow> unionAll_store rs (bitmap_Or s result bitmap) result rest)"

definition queryOrLocked_store :: "TagSystemRefs \<Rightarrow> store \<Rightarrow> string list \<Rightarrow> store \<times> (error + addr)" where
  "queryOrLocked_store rs s tagNames =
     (case roaring_NewBitmap s of (s', result) \<Rightarrow> (unionAll_store rs s' result tagNames, Inr result))"

definition queryNotLocked_store :: "TagSystemRefs \<Rightarrow> store \<Rightarrow> string \<Rightarrow> store \<times> addr" where
  "queryNotLocked_store rs s tag =
     (case map_of (tagsRef rs) tag of
        None \<Rightarrow> bitmap_Clone s (allObjectsRef rs)
      | Some bitmap \<Rightarrow>
          (case bitmap_Clone s (allObjectsRef rs) of (s', result) \<Rightarrow> (bitmap_AndNot s' result bitmap, result)))"

definition evalOp_store :: "TagSystemRefs \<Rightarrow> store \<Rightarrow> QueryOp \<Rightarrow> store \<times> (error + addr)" where
  "evalOp_store rs s qop =
     (if Type qop = ''AND'' then queryAndLocked_store rs s (Tags qop)
      else if Type qop = ''OR'' then queryOrLocked_store rs s (Tags qop)
      else if Type qop = ''NOT'' then
        (case Tags qop of
           [tag] \<Rightarrow> (case queryNotLocked_store rs s tag of (s', partial) \<Rightarrow> (s', Inr partial))
         | _ \<Rightarrow> (s, Inl NotRequiresExactlyOneTag))
      else (s, Inl (UnknownOperation (Type qop))))"

fun complexLoop_store ::
  "TagSystemRefs \<Rightarrow> store \<Rightarrow> nat \<Rightarrow> addr option \<Rightarrow> QueryOp list \<Rightarrow> store \<times> (error + addr option)" where
  "complexLoop_store rs s i result [] = (s, Inr result)"
| "complexLoop_store rs s i result (qop # rest) =
     (case evalOp_store rs s qop of
        (s', Inl err) \<Rightarrow> (s', Inl err)
      | (s', Inr partial) \<Rightarrow>
          (if i = 0 then complexLoop_store rs s' (Suc i) (Some partial) rest
           else (case result of
                   None \<Rightarrow> (s', Inl (Panic ''nil pointer dereference''))
                 | Some r \<Rightarrow> complexLoop_store rs (bitmap_And s' r partial) (Suc i) (Some r) rest)))"

definition ComplexQuery_store ::
  "TagSystemRefs \<Rightarrow> store \<Rightarrow> QueryOp list \<Rightarrow> store \<times> (error + addr option)" where
  "ComplexQuery_store rs s ops =
     (if length ops = 0 then (case roaring_NewBitmap s of (s', new) \<Rightarrow> (s', Inr (Some new)))
      else complexLoop_store rs s 0 None ops)"

definition index_of :: "Config \<Rightarrow> TagSystemRefs \<Rightarrow> store \<Rightarrow> TagSystem" where
  "index_of cfg rs s =
     \<lparr>tags = map (\<lambda>(tag, a). (tag, cells s a)) (tagsRef rs),
      allObjects = cells s (allObjectsRef rs), config = cfg\<rparr>"

definition allocated :: "TagSystemRefs \<Rightarrow> store \<Rightarrow> bool" where
  "allocated rs s \<longleftrightarrow> allObjectsRef rs < free s \<and> list_all (\<lambda>(tag, a). a < free s) (tagsRef rs)"

definition frame :: "store \<Rightarrow> store \<Rightarrow> bool" where
  "frame s s' \<longleftrightarrow> free s \<le> free s' \<and> (\<forall>a<free s. cells s' a = cells s a)"

definition example_refs :: TagSystemRefs where
  "example_refs = \<lparr>tagsRef = [(''vip'', 1), (''male'', 2)], allObjectsRef = 0\<rparr>"

definition example_store :: store where
  "example_store = \<lparr>cells = (\<lambda>a. {})(0 := {1, 2}, 1 := {1, 2}, 2 := {1}), free = 3\<rparr>"

subsection \<open>Snapshots and recovery (tagbox.go, redis.go)\<close>



text \<open>
  The loop of \<open>LoadSnapshot\<close> assigns each decoded bitmap to its tag and joins it into
  \<open>allObjects\<close>; at the first entry that cannot be decoded it returns, and what it has
  loaded so far stays.
\<close>

fun loadAll ::
  "('b, 'f, 'w) env \<Rightarrow> TagSystem \<Rightarrow> (string \<times> 'b) list \<Rightarrow> TagSystem \<times> error option" where
  "loadAll e ts [] = (ts, None)"
| "loadAll e ts ((tag, buf) # rest) =
     (case ReadFrom e buf of
        Inl err \<Rightarrow> (ts, Some (LoadTagFailed tag err))
      | Inr bitmap \<Rightarrow>
          loadAll e (ts\<lparr>tags := AList.update tag bitmap (tags ts),
                         allObjects := allObjects ts \<union> bitmap\<rparr>) rest)"

definition LoadSnapshot ::
  "('b, 'f, 'w) env \<Rightarrow> TagSystem \<Rightarrow> 'w \<Rightarrow> string \<Rightarrow> TagSystem \<times> error option" where
  "LoadSnapshot e ts w filePath =
     (case os_ReadFile e w filePath of
        Inl err \<Rightarrow> (ts, Some err)
      | Inr jsonData \<Rightarrow>
          (case json_Unmarshal e jsonData of
             Inl err \<Rightarrow> (ts, Some err)
           | Inr data \<Rightarrow> loadAll e ts data))"

text \<open>
  The second loop of \<open>RecoverFromRedis\<close>, with the list \<open>errs\<close> it collects. The slice
  expression \<open>key[len(prefix):]\<close> panics on a key shorter than the prefix.
\<close>

fun recoverAll ::
  "('b, 'f, 'w) env \<Rightarrow> 'w \<Rightarrow> string \<Rightarrow> TagSystem \<Rightarrow> error list \<Rightarrow> string list \<Rightarrow>
     TagSystem \<times> (error + error list)" where
  "recoverAll e w prefix ts errs [] = (ts, Inr errs)"
| "recoverAll e w prefix ts errs (key # rest) =
     (if length key < length prefix then (ts, Inl (Panic ''slice bounds out of range''))
      else
        (let tag = drop (length prefix) key
         in case redis_Get e w key of
              Nil \<Rightarrow> recoverAll e w prefix ts errs rest
            | Failed err \<Rightarrow> recoverAll e w prefix ts (errs @ [TagError tag err]) rest
            | Bytes data \<Rightarrow>
                (case ReadFrom e data of
                   Inl err \<Rightarrow> recoverAll e w prefix ts (errs @ [TagError tag err]) rest
                 | Inr bitmap \<Rightarrow>
                     recoverAll e w prefix
                       (ts\<lparr>tags := AList.update tag bitmap (tags ts),
                            allObjects := allObjects ts \<union> bitmap\<rparr>) errs rest)))"

definition RecoverFromRedis ::
  "('b, 'f, 'w) env \<Rightarrow> TagSystem \<Rightarrow> 'w \<Rightarrow> TagSystem \<times> error option" where
  "RecoverFromRedis e ts w =
     (let prefix = KeyPrefix (config ts);
          (scanned, iterErr) = redis_Scan e w (prefix @ ''*'');
          keys = filter (\<lambda>key. key \<noteq> prefix @ ''_meta'') scanned
      in case iterErr of
           Some err \<Rightarrow> (ts, Some (RedisScanFailed err))
         | None \<Rightarrow>
             (case recoverAll e w prefix ts [] keys of
                (ts', Inl panic) \<Rightarrow> (ts', Some panic)
              | (ts', Inr errs) \<Rightarrow>
                  if length errs > 0 then (ts', Some (RecoverCompletedWithErrors errs))
                  else (ts', None)))"

definition LoadTagFromRedis ::
  "('b, 'f, 'w) env \<Rightarrow> TagSystem \<Rightarrow> 'w \<Rightarrow> string \<Rightarrow> TagSystem \<times> error option" where
  "LoadTagFromRedis e ts w tag =
     (let key = KeyPrefix (config ts) @ tag
      in case redis_Get e w key of
           Nil \<Rightarrow> (ts, Some (TagNotFound tag))
         | Failed err \<Rightarrow> (ts, Some err)
         | Bytes data \<Rightarrow>
             (case ReadFrom e data of
                Inl err \<Rightarrow> (ts, Some (DeserializationFailed err))
              | Inr bitmap \<Rightarrow>
                  (ts\<lparr>tags := AList.update tag bitmap (tags ts),
                       allObjects := allObjects ts \<union> bitmap\<rparr>, None)))"

subsection \<open>Sequences of public operations\<close>

text \<open>
  The public operations that write the index, each with the state of the outside world it
  meets. The remaining public operations (the queries, \<open>HasTag\<close>, \<open>GetObjectTags\<close>,
  \<open>GetAllTags\<close>, \<open>GetTagCount\<close>, \<open>GetStats\<close>, \<open>SaveToRedis\<close>, \<open>SaveTagToRedis\<close>,
  \<open>SaveSnapshot\<close>, \<open>StartSnapshot\<close>, \<open>Close\<close>) assign neither to the map nor to
  \<open>allObjects\<close>.
\<close>

datatype 'w operation =
    OpAddTag "32 word" string
  | OpRemoveTag "32 word" string
  | OpBatchAddTags "32 word" "string list"
  | OpBatchAddObjectsToTag "32 word list" string
  | OpLoadSnapshot 'w string
  | OpRecoverFromRedis 'w
  | OpLoadTagFromRedis 'w string

fun exec :: "('b, 'f, 'w) env \<Rightarrow> TagSystem \<Rightarrow> 'w operation \<Rightarrow> TagSystem" where
  "exec e ts (OpAddTag objectID tag) = fst (AddTag ts objectID tag)"
| "exec e ts (OpRemoveTag objectID tag) = fst (RemoveTag ts objectID tag)"
| "exec e ts (OpBatchAddTags objectID tagNames) = fst (BatchAddTags ts objectID tagNames)"
| "exec e ts (OpBatchAddObjectsToTag objectIDs tag) = fst (BatchAddObjectsToTag ts objectIDs tag)"
| "exec e ts (OpLoadSnapshot w filePath) = fst (LoadSnapshot e ts w filePath)"
| "exec e ts (OpRecoverFromRedis w) = fst (RecoverFromRedis e ts w)"
| "exec e ts (OpLoadTagFromRedis w tag) = fst (LoadTagFromRedis e ts w tag)"

definition run :: "('b, 'f, 'w) env \<Rightarrow> TagSystem \<Rightarrow> 'w operation list \<Rightarrow> TagSystem" where
  "run e ts ops = foldl (exec e) ts ops"

subsection \<open>A small outside world for concrete runs\<close>

text \<open>
  An instance of the outside world on which the model can be evaluated: a bitmap is its own
  serialised form, a JSON document is the map it encodes, the file system is a finite map
  from paths to documents, and Redis answers every ping and holds no key.
\<close>

type_synonym mem_file = "(string \<times> bitmap) list"

definition mem_env :: "(bitmap, mem_file, string \<rightharpoonup> mem_file) env" where
  "mem_env =
     \<lparr>WriteTo = Inr, ReadFrom = Inr, json_Marshal = Inr, json_Unmarshal = Inr,
      os_WriteFile = (\<lambda>w path f. (w(path \<mapsto> f), None)),
      os_ReadFile = (\<lambda>w path. case w path of None \<Rightarrow> Inl (External ''no such file'') | Some f \<Rightarrow> Inr f),
      redis_Ping = (\<lambda>w. None),
      redis_Scan = (\<lambda>w pattern. ([], None)),
      redis_Get = (\<lambda>w key. Nil)\<rparr>"

definition new_index :: TagSystem where
  "new_index = \<lparr>tags = [], allObjects = {}, config = DefaultConfig\<rparr>"

definition example_index :: TagSystem where
  "example_index =
     \<lparr>tags = [(''vip'', {1}), (''male'', {1}), (''female'', {2}), (''active'', {2})],
      allObjects = {1, 2}, config = DefaultConfig\<rparr>"

subsection \<open>JSON as the library writes it\<close>








subsection \<open>What the specification says a query denotes\<close>

text \<open>
  The bitmap of a tag, empty for a tag that is absent; the partial result of one operation
  of a complex query in the words of the specification (AND is the intersection of the
  bitmaps of its tags and empty for no tags, OR is the union of the bitmaps of its tags
  that exist, NOT is \<open>allObjects\<close> minus the bitmap of its tag); and the operations that
  the specification admits.
\<close>

definition tagBitmap :: "TagSystem \<Rightarrow> string \<Rightarrow> bitmap" where
  "tagBitmap ts tag = (case map_of (tags ts) tag of None \<Rightarrow> {} | Some b \<Rightarrow> b)"

definition opPartial :: "TagSystem \<Rightarrow> QueryOp \<Rightarrow> bitmap" where
  "opPartial ts qop =
     (if Type qop = ''AND'' then
        (if Tags qop = [] then {} else (\<Inter>t\<in>set (Tags qop). tagBitmap ts t))
      else if Type qop = ''OR'' then
        \<Union> {b. \<exists>t\<in>set (Tags qop). map_of (tags ts) t = Some b}
      else allObjects ts - tagBitmap ts (hd (Tags qop)))"

definition validOp :: "QueryOp \<Rightarrow> bool" where
  "validOp qop \<longleftrightarrow>
     Type qop = ''AND'' \<or> Type qop = ''OR'' \<or> (Type qop = ''NOT'' \<and> length (Tags qop) = 1)"

subsection \<open>Predicates on the index\<close>

text \<open>
  \<open>covered\<close>: \<open>allObjects\<close> holds every object of every tag. \<open>exact\<close>: \<open>allObjects\<close> is the
  union of the bitmaps of all tags. \<open>distinctTags\<close>: no tag name occurs twice in the list
  that stands for the Go map. \<open>addsOnly\<close>: the operation is \<open>AddTag\<close>,
  \<open>BatchAddObjectsToTag\<close>, or \<open>BatchAddTags\<close> with at least one tag name.
  \<open>nonEmptyTags\<close>: no tag of the index has an empty bitmap. \<open>keepsNonEmpty\<close>: the operation
  is \<open>AddTag\<close>, \<open>RemoveTag\<close>, \<open>BatchAddTags\<close>, or \<open>BatchAddObjectsToTag\<close> with at least
  one object.
\<close>

definition covered :: "TagSystem \<Rightarrow> bool" where
  "covered ts \<longleftrightarrow> \<Union> (snd ` set (tags ts)) \<subseteq> allObjects ts"

definition exact :: "TagSystem \<Rightarrow> bool" where
  "exact ts \<longleftrightarrow> allObjects ts = \<Union> (snd ` set (tags ts))"


fun addsOnly :: "'w operation \<Rightarrow> bool" where
  "addsOnly (OpAddTag objectID tag) = True"
| "addsOnly (OpBatchAddObjectsToTag objectIDs tag) = True"
| "addsOnly (OpBatchAddTags objectID tagNames) = (tagNames \<noteq> [])"
| "addsOnly (OpRemoveTag objectID tag) = False"
| "addsOnly (OpLoadSnapshot w filePath) = False"
| "addsOnly (OpRecoverFromRedis w) = False"
| "addsOnly (OpLoadTagFromRedis w tag) = False"

definition nonEmptyTags :: "TagSystem \<Rightarrow> bool" where
  "nonEmptyTags ts \<longleftrightarrow> {} \<notin> snd ` set (tags ts)"

fun keepsNonEmpty :: "'w operation \<Rightarrow> bool" where
  "keepsNonEmpty (OpAddTag objectID tag) = True"
| "keepsNonEmpty (OpRemoveTag objectID tag) = True"
| "keepsNonEmpty (OpBatchAddTags objectID tagNames) = True"
| "keepsNonEmpty (OpBatchAddObjectsToTag objectIDs tag) = (objectIDs \<noteq> [])"
| "keepsNonEmpty (OpLoadSnapshot w filePath) = False"
| "keepsNonEmpty (OpRecoverFromRedis w) = False"
| "keepsNonEmpty (OpLoadTagFromRedis w tag) = False"

section \<open>Properties\<close>

subsection \<open>Queries\<close>

lemma intersectRest_missing:
  "t \<in> set rest \<Longrightarrow> map_of (tags ts) t = None \<Longrightarrow> intersectRest ts r rest = Inr {}"
  by (induction rest arbitrary: r) (auto split: option.splits)

lemma intersectRest_present:
  "\<forall>t\<in>set rest. map_of (tags ts) t \<noteq> None \<Longrightarrow>
   intersectRest ts r rest = Inr (foldl (\<inter>) r (map (tagBitmap ts) rest))"
  by (induction rest arbitrary: r) (auto simp: tagBitmap_def split: option.splits)

lemma foldl_Int_INT: "foldl (\<inter>) r xs = r \<inter> (\<Inter> (set xs))"
  by (induction xs arbitrary: r) auto

lemma unionAll_eq:
  "unionAll ts r names = r \<union> \<Union> {b. \<exists>t\<in>set names. map_of (tags ts) t = Some b}"
  by (induction names arbitrary: r) (auto split: option.splits)

lemma queryAndLocked_partial:
  "queryAndLocked ts names =
     Inr (if names = [] then {} else (\<Inter>t\<in>set names. tagBitmap ts t))"
proof (cases names)
  case Nil then show ?thesis by (simp add: queryAndLocked_def)
next
  case (Cons first rest)
  show ?thesis
  proof (cases "\<exists>t\<in>set names. map_of (tags ts) t = None")
    case True
    then have "(\<Inter>t\<in>set names. tagBitmap ts t) = {}" by (auto simp: tagBitmap_def)
    moreover have "queryAndLocked ts names = Inr {}" using True Cons
      by (auto simp: queryAndLocked_def intersectRest_missing split: option.splits)
    ultimately show ?thesis using Cons by simp
  next
    case False
    then have "queryAndLocked ts names = Inr (foldl (\<inter>) (tagBitmap ts first) (map (tagBitmap ts) rest))"
      using Cons by (auto simp: queryAndLocked_def intersectRest_present tagBitmap_def split: option.splits)
    then show ?thesis using Cons by (simp add: foldl_Int_INT)
  qed
qed

lemma evalOp_valid: "validOp qop \<Longrightarrow> evalOp ts qop = Inr (opPartial ts qop)"
  unfolding validOp_def
  by (cases "Tags qop"; cases "tl (Tags qop)")
     (auto simp: evalOp_def opPartial_def queryAndLocked_partial queryOrLocked_def unionAll_eq
        queryNotLocked_def tagBitmap_def split: option.splits list.splits)

lemma evalOp_error_iff: "(\<exists>err. evalOp ts qop = Inl err) \<longleftrightarrow> \<not> validOp qop"
  unfolding validOp_def
  by (auto simp: evalOp_def queryAndLocked_partial queryOrLocked_def split: list.splits)

lemma complexLoop_valid:
  "\<forall>qop\<in>set rest. validOp qop \<Longrightarrow>
   complexLoop ts (Suc i) (Some r) rest = Inr (Some (foldl (\<inter>) r (map (opPartial ts) rest)))"
  by (induction rest arbitrary: i r) (auto simp: evalOp_valid)

lemma complexLoop_error_iff:
  "i = 0 \<or> res \<noteq> None \<Longrightarrow>
   (\<exists>err. complexLoop ts i res ops = Inl err) \<longleftrightarrow> (\<exists>qop\<in>set ops. \<not> validOp qop)"
proof (induction ops arbitrary: i res)
  case Nil
  then show ?case by simp
next
  case (Cons qop rest)
  show ?case
  proof (cases "validOp qop")
    case True
    then have ev: "evalOp ts qop = Inr (opPartial ts qop)" by (rule evalOp_valid)
    show ?thesis
    proof (cases "i = 0")
      case True
      then show ?thesis using ev \<open>validOp qop\<close> Cons.IH [of "Suc i" "Some (opPartial ts qop)"]
        by simp
    next
      case False
      with Cons.prems obtain r where r: "res = Some r" by auto
      show ?thesis using False r ev \<open>validOp qop\<close>
          Cons.IH [of "Suc i" "Some (r \<inter> opPartial ts qop)"]
        by simp
    qed
  next
    case False
    then obtain err where "evalOp ts qop = Inl err" using evalOp_error_iff by blast
    then show ?thesis using False by auto
  qed
qed

lemma complexLoop_first:
  "validOp qop \<Longrightarrow> \<forall>q\<in>set rest. validOp q \<Longrightarrow>
   complexLoop ts 0 None (qop # rest) =
     Inr (Some (foldl (\<inter>) (opPartial ts qop) (map (opPartial ts) rest)))"
  by (simp add: evalOp_valid complexLoop_valid)

lemma validOp_iff:
  "\<not> validOp qop \<longleftrightarrow>
     (Type qop = ''NOT'' \<and> length (Tags qop) \<noteq> 1) \<or> Type qop \<notin> {''AND'', ''OR'', ''NOT''}"
  by (auto simp: validOp_def)

text \<open>
  Claim C5. \<open>QueryAnd\<close> of the empty list is the empty bitmap; if any named tag is absent from
  the index, at whatever position, the result is the empty bitmap, whatever the intersection
  of the tags before it; otherwise the result is the first tag's bitmap intersected in turn
  with the bitmap of each later tag.
\<close>

theorem QueryAnd_spec:
  "QueryAnd ts [] = Inr {} \<and>
   ((\<exists>t\<in>set tagNames. map_of (tags ts) t = None) \<longrightarrow> QueryAnd ts tagNames = Inr {}) \<and>
   (\<forall>first rest. tagNames = first # rest \<and> (\<forall>t\<in>set tagNames. map_of (tags ts) t \<noteq> None) \<longrightarrow>
      QueryAnd ts tagNames = Inr (foldl (\<inter>) (tagBitmap ts first) (map (tagBitmap ts) rest)))"
proof (intro conjI impI allI)
  show "QueryAnd ts [] = Inr {}" by (simp add: QueryAnd_def)
next
  assume "\<exists>t\<in>set tagNames. map_of (tags ts) t = None"
  then show "QueryAnd ts tagNames = Inr {}"
    by (cases tagNames) (auto simp: QueryAnd_def intersectRest_missing split: option.splits)
next
  fix first rest
  assume "tagNames = first # rest \<and> (\<forall>t\<in>set tagNames. map_of (tags ts) t \<noteq> None)"
  then show "QueryAnd ts tagNames = Inr (foldl (\<inter>) (tagBitmap ts first) (map (tagBitmap ts) rest))"
    by (auto simp: QueryAnd_def intersectRest_present tagBitmap_def split: option.splits)
qed

theorem QueryAnd_spec_witness:
  "(\<exists>t\<in>set [''vip'', ''ghost'']. map_of (tags example_index) t = None) \<and>
   QueryAnd example_index [''vip'', ''ghost''] = Inr {} \<and>
   map_of (tags example_index) ''vip'' \<noteq> None \<and> map_of (tags example_index) ''male'' \<noteq> None \<and>
   QueryAnd example_index [''vip'', ''male''] = Inr {1}"
  using QueryAnd_spec [of example_index "[''vip'', ''ghost'']"]
        QueryAnd_spec [of example_index "[''vip'', ''male'']"]
  by (simp add: example_index_def tagBitmap_def)

text \<open>
  Claim C6. \<open>QueryOr\<close> returns the union of the bitmaps of exactly the named tags that exist;
  an absent tag adds nothing and raises no error, so one existing tag with one tag never
  created gives the existing tag's bitmap, and the empty list gives the empty bitmap.
\<close>

theorem QueryOr_spec:
  "QueryOr ts tagNames = Inr (\<Union> {b. \<exists>t\<in>set tagNames. map_of (tags ts) t = Some b}) \<and>
   QueryOr ts [] = Inr {} \<and>
   (map_of (tags ts) present = Some b \<and> map_of (tags ts) ghost = None \<longrightarrow>
      QueryOr ts [present, ghost] = Inr b)"
  by (auto simp: QueryOr_def unionAll_eq)

theorem QueryOr_spec_witness:
  "map_of (tags example_index) ''vip'' = Some {1} \<and> map_of (tags example_index) ''ghost'' = None \<and>
   QueryOr example_index [''vip'', ''ghost''] = Inr {1}"
  using QueryOr_spec [of example_index "[''vip'', ''ghost'']" "''vip''" "{1}" "''ghost''"]
  by (simp add: example_index_def)

text \<open>
  Claim C1. For a list of at least two operations, each an AND, an OR or a NOT of a single
  tag, \<open>ComplexQuery\<close> returns the partial result of the first operation intersected with the
  partial result of each later one, whatever their types; the type only chooses how the tags
  of one operation are combined.
\<close>

theorem ComplexQuery_intersects_partials:
  assumes "2 \<le> length ops" and "\<forall>qop\<in>set ops. validOp qop"
  shows "ComplexQuery ts ops =
           Inr (Some (foldl (\<inter>) (opPartial ts (hd ops)) (map (opPartial ts) (tl ops)))) \<and>
         ComplexQuery ts ops = Inr (Some (\<Inter>qop\<in>set ops. opPartial ts qop))"
proof -
  from assms(1) obtain first rest where ops: "ops = first # rest" by (cases ops) auto
  have "ComplexQuery ts ops = complexLoop ts 0 None ops" using ops by (simp add: ComplexQuery_def)
  also have "\<dots> = Inr (Some (foldl (\<inter>) (opPartial ts first) (map (opPartial ts) rest)))"
    using assms(2) unfolding ops by (intro complexLoop_first) auto
  finally have 1: "ComplexQuery ts ops =
      Inr (Some (foldl (\<inter>) (opPartial ts (hd ops)) (map (opPartial ts) (tl ops))))"
    using ops by simp
  moreover have "foldl (\<inter>) (opPartial ts (hd ops)) (map (opPartial ts) (tl ops)) =
      (\<Inter>qop\<in>set ops. opPartial ts qop)"
    unfolding ops by (simp add: foldl_Int_INT)
  ultimately show ?thesis by simp
qed

theorem ComplexQuery_intersects_partials_witness:
  "2 \<le> length [\<lparr>Type = ''AND'', Tags = [''vip'', ''male'']\<rparr>,
                 \<lparr>Type = ''AND'', Tags = [''female'', ''active'']\<rparr>] \<and>
   validOp \<lparr>Type = ''AND'', Tags = [''vip'', ''male'']\<rparr> \<and>
   validOp \<lparr>Type = ''AND'', Tags = [''female'', ''active'']\<rparr> \<and>
   ComplexQuery example_index
      [\<lparr>Type = ''AND'', Tags = [''vip'', ''male'']\<rparr>,
       \<lparr>Type = ''AND'', Tags = [''female'', ''active'']\<rparr>] = Inr (Some {})"
  using ComplexQuery_intersects_partials [of
      "[\<lparr>Type = ''AND'', Tags = [''vip'', ''male'']\<rparr>,
        \<lparr>Type = ''AND'', Tags = [''female'', ''active'']\<rparr>]" example_index]
  by (simp add: validOp_def opPartial_def tagBitmap_def example_index_def)

text \<open>
  On the values of the model: \<open>ComplexQuery\<close> returns an error exactly when its list holds a
  NOT operation whose number of tags is not one, or an operation of a type other than AND,
  OR and NOT.
\<close>

lemma ComplexQuery_error_iff_value:
  "((\<exists>err. ComplexQuery ts ops = Inl err) \<longleftrightarrow>
      (\<exists>qop\<in>set ops. (Type qop = ''NOT'' \<and> length (Tags qop) \<noteq> 1) \<or>
                      Type qop \<notin> {''AND'', ''OR'', ''NOT''})) \<and>
   (\<not> (\<exists>qop\<in>set ops. (Type qop = ''NOT'' \<and> length (Tags qop) \<noteq> 1) \<or>
                      Type qop \<notin> {''AND'', ''OR'', ''NOT''}) \<longrightarrow>
      (\<exists>b. ComplexQuery ts ops = Inr (Some b)))"
proof -
  have iff: "(\<exists>err. ComplexQuery ts ops = Inl err) \<longleftrightarrow> (\<exists>qop\<in>set ops. \<not> validOp qop)"
  proof (cases ops)
    case Nil
    then show ?thesis by (simp add: ComplexQuery_def)
  next
    case (Cons a list)
    then show ?thesis using complexLoop_error_iff [of 0 None ts ops]
      by (simp add: ComplexQuery_def)
  qed
  have ok: "\<exists>b. ComplexQuery ts ops = Inr (Some b)" if "\<forall>qop\<in>set ops. validOp qop"
  proof (cases ops)
    case Nil
    then show ?thesis by (simp add: ComplexQuery_def)
  next
    case (Cons a list)
    then show ?thesis using that complexLoop_first [of a list ts]
      by (simp add: ComplexQuery_def)
  qed
  show ?thesis using iff ok unfolding validOp_iff [symmetric] by blast
qed

text \<open>
  The queries on the store return what the queries on values return, and keep every object
  that the store held before.
\<close>

lemma frame_refl: "frame s s"
  by (simp add: frame_def)

lemma frame_trans: "frame s s' \<Longrightarrow> frame s' s'' \<Longrightarrow> frame s s''"
  by (auto simp: frame_def)

lemma lookup_index_of:
  "map_of (tags (index_of cfg rs s)) tag = map_option (cells s) (map_of (tagsRef rs) tag)"
  by (simp add: index_of_def map_of_map)

lemma allocated_lookup:
  "allocated rs s \<Longrightarrow> map_of (tagsRef rs) tag = Some a \<Longrightarrow> a < free s"
  by (auto simp: allocated_def list_all_iff dest!: map_of_SomeD)

lemma index_of_frame:
  assumes "allocated rs s" and "frame s s'"
  shows "index_of cfg rs s' = index_of cfg rs s"
proof -
  have "cells s' a = cells s a" if "(tag, a) \<in> set (tagsRef rs)" for tag a
    using that assms by (auto simp: allocated_def list_all_iff frame_def)
  then have "map (\<lambda>(tag, a). (tag, cells s' a)) (tagsRef rs) =
             map (\<lambda>(tag, a). (tag, cells s a)) (tagsRef rs)"
    by (intro map_cong) auto
  moreover have "cells s' (allObjectsRef rs) = cells s (allObjectsRef rs)"
    using assms by (simp add: allocated_def frame_def)
  ultimately show ?thesis by (simp add: index_of_def)
qed

lemma allocated_frame: "allocated rs s \<Longrightarrow> frame s s' \<Longrightarrow> allocated rs s'"
  by (auto simp: allocated_def frame_def list_all_iff)

lemma NewBitmap_frame:
  "roaring_NewBitmap s = (s', r) \<Longrightarrow>
   frame s s' \<and> r = free s \<and> free s' = Suc (free s) \<and> cells s' r = {}"
  by (auto simp: roaring_NewBitmap_def frame_def)

lemma Clone_frame:
  "bitmap_Clone s a = (s', r) \<Longrightarrow>
   frame s s' \<and> r = free s \<and> free s' = Suc (free s) \<and> cells s' r = cells s a"
  by (auto simp: bitmap_Clone_def frame_def)

lemma And_frame:
  "frame s0 s \<Longrightarrow> free s0 \<le> r \<Longrightarrow> frame s0 (bitmap_And s r b) \<and> free (bitmap_And s r b) = free s"
  by (auto simp: frame_def bitmap_And_def)

lemma Or_frame:
  "frame s0 s \<Longrightarrow> free s0 \<le> r \<Longrightarrow> frame s0 (bitmap_Or s r b) \<and> free (bitmap_Or s r b) = free s"
  by (auto simp: frame_def bitmap_Or_def)

lemma AndNot_frame:
  "frame s0 s \<Longrightarrow> free s0 \<le> r \<Longrightarrow> frame s0 (bitmap_AndNot s r b) \<and> free (bitmap_AndNot s r b) = free s"
  by (auto simp: frame_def bitmap_AndNot_def)

lemma intersectRest_store_refines:
  assumes "allocated rs s0" and "frame s0 s" and "free s0 \<le> r" and "r < free s"
  shows "\<exists>s' r'. intersectRest_store rs s r rest = (s', Inr r') \<and> frame s0 s' \<and>
           free s0 \<le> r' \<and> r' < free s' \<and>
           intersectRest (index_of cfg rs s0) (cells s r) rest = Inr (cells s' r')"
  using assms(2,4)
proof (induction rest arbitrary: s)
  case Nil
  then show ?case using assms(3) by simp
next
  case (Cons tag rest)
  show ?case
  proof (cases "map_of (tagsRef rs) tag")
    case None
    obtain s' r' where nb: "roaring_NewBitmap s = (s', r')" by (cases "roaring_NewBitmap s")
    from NewBitmap_frame [OF nb] have "frame s s'" "r' = free s" "free s' = Suc (free s)" "cells s' r' = {}"
      by auto
    moreover have "free s0 \<le> free s" using Cons.prems(1) by (simp add: frame_def)
    ultimately show ?thesis using None nb Cons.prems(1) frame_trans [of s0 s s']
      by (simp add: lookup_index_of)
  next
    case (Some b)
    let ?s1 = "bitmap_And s r b"
    have b: "b < free s0" using assms(1) Some by (rule allocated_lookup)
    have f1: "frame s0 ?s1" and fr: "free ?s1 = free s"
      using And_frame [OF Cons.prems(1) assms(3)] by simp_all
    have "cells s b = cells s0 b" using Cons.prems(1) b by (simp add: frame_def)
    then have c: "cells ?s1 r = cells s r \<inter> cells s0 b" by (simp add: bitmap_And_def)
    from Cons.IH [OF f1] Cons.prems(2) fr
    obtain s' r' where "intersectRest_store rs ?s1 r rest = (s', Inr r')" "frame s0 s'"
      "free s0 \<le> r'" "r' < free s'"
      "intersectRest (index_of cfg rs s0) (cells ?s1 r) rest = Inr (cells s' r')"
      by auto
    then show ?thesis using Some c by (simp add: lookup_index_of)
  qed
qed

lemma queryAndLocked_store_refines:
  assumes "allocated rs s"
  shows "\<exists>s' r'. queryAndLocked_store rs s names = (s', Inr r') \<and> frame s s' \<and>
           free s \<le> r' \<and> r' < free s' \<and>
           queryAndLocked (index_of cfg rs s) names = Inr (cells s' r')"
proof -
  have new: "\<exists>s' r'. roaring_NewBitmap s = (s', r') \<and> frame s s' \<and> free s \<le> r' \<and> r' < free s' \<and>
      cells s' r' = {}"
    using NewBitmap_frame [of s] by (cases "roaring_NewBitmap s") auto
  show ?thesis
  proof (cases names)
    case Nil
    then show ?thesis using new by (auto simp: queryAndLocked_store_def queryAndLocked_def)
  next
    case (Cons first rest)
    show ?thesis
    proof (cases "map_of (tagsRef rs) first")
      case None
      then show ?thesis using new Cons
        by (auto simp: queryAndLocked_store_def queryAndLocked_def lookup_index_of)
    next
      case (Some fb)
      obtain s1 r where cl: "bitmap_Clone s fb = (s1, r)" by (cases "bitmap_Clone s fb")
      from Clone_frame [OF cl] have f1: "frame s s1" and r: "r = free s" "free s1 = Suc (free s)"
        and c: "cells s1 r = cells s fb" by auto
      from intersectRest_store_refines [OF assms f1, of r rest cfg] r
      obtain s' r' where "intersectRest_store rs s1 r rest = (s', Inr r')" "frame s s'"
        "free s \<le> r'" "r' < free s'"
        "intersectRest (index_of cfg rs s) (cells s1 r) rest = Inr (cells s' r')"
        by auto
      then show ?thesis using Some Cons cl c
        by (simp add: queryAndLocked_store_def queryAndLocked_def lookup_index_of)
    qed
  qed
qed

lemma unionAll_store_refines:
  assumes "allocated rs s0" and "frame s0 s" and "free s0 \<le> r" and "r < free s"
  shows "frame s0 (unionAll_store rs s r names) \<and> free (unionAll_store rs s r names) = free s \<and>
         cells (unionAll_store rs s r names) r = unionAll (index_of cfg rs s0) (cells s r) names"
  using assms(2,4)
proof (induction names arbitrary: s)
  case Nil
  then show ?case by simp
next
  case (Cons tag names)
  show ?case
  proof (cases "map_of (tagsRef rs) tag")
    case None
    then show ?thesis using Cons by (simp add: lookup_index_of)
  next
    case (Some b)
    let ?s1 = "bitmap_Or s r b"
    have b: "b < free s0" using assms(1) Some by (rule allocated_lookup)
    have f1: "frame s0 ?s1" and fr: "free ?s1 = free s"
      using Or_frame [OF Cons.prems(1) assms(3)] by simp_all
    have "cells s b = cells s0 b" using Cons.prems(1) b by (simp add: frame_def)
    then have c: "cells ?s1 r = cells s r \<union> cells s0 b" by (simp add: bitmap_Or_def)
    from Cons.IH [OF f1] Cons.prems(2) fr
    show ?thesis using Some c by (simp add: lookup_index_of)
  qed
qed

lemma queryOrLocked_store_refines:
  assumes "allocated rs s"
  shows "\<exists>s' r'. queryOrLocked_store rs s names = (s', Inr r') \<and> frame s s' \<and>
           free s \<le> r' \<and> r' < free s' \<and>
           queryOrLocked (index_of cfg rs s) names = Inr (cells s' r')"
proof -
  obtain s1 r where nb: "roaring_NewBitmap s = (s1, r)" by (cases "roaring_NewBitmap s")
  from NewBitmap_frame [OF nb] have f1: "frame s s1" and r: "r = free s" "free s1 = Suc (free s)"
    and c: "cells s1 r = {}" by auto
  from unionAll_store_refines [OF assms f1, of r names cfg] r c
  show ?thesis using nb by (simp add: queryOrLocked_store_def queryOrLocked_def)
qed

lemma queryNotLocked_store_refines:
  assumes "allocated rs s"
  shows "\<exists>s' r'. queryNotLocked_store rs s tag = (s', r') \<and> frame s s' \<and>
           free s \<le> r' \<and> r' < free s' \<and>
           cells s' r' = queryNotLocked (index_of cfg rs s) tag"
proof -
  obtain s1 r where cl: "bitmap_Clone s (allObjectsRef rs) = (s1, r)"
    by (cases "bitmap_Clone s (allObjectsRef rs)")
  from Clone_frame [OF cl] have f1: "frame s s1" and r: "r = free s" "free s1 = Suc (free s)"
    and c: "cells s1 r = cells s (allObjectsRef rs)" by auto
  have all: "allObjects (index_of cfg rs s) = cells s (allObjectsRef rs)" by (simp add: index_of_def)
  show ?thesis
  proof (cases "map_of (tagsRef rs) tag")
    case None
    then show ?thesis using cl f1 r c all
      by (simp add: queryNotLocked_store_def queryNotLocked_def lookup_index_of)
  next
    case (Some b)
    have b: "b < free s" using assms Some by (rule allocated_lookup)
    then have "cells s1 b = cells s b" using f1 by (simp add: frame_def)
    then have "cells (bitmap_AndNot s1 r b) r = cells s (allObjectsRef rs) - cells s b"
      using c by (simp add: bitmap_AndNot_def)
    moreover have "frame s (bitmap_AndNot s1 r b)" "free (bitmap_AndNot s1 r b) = free s1"
      using AndNot_frame [OF f1, of r b] r by simp_all
    ultimately show ?thesis using Some cl r all
      by (simp add: queryNotLocked_store_def queryNotLocked_def lookup_index_of)
  qed
qed

lemma evalOp_store_refines:
  assumes "allocated rs s"
  shows "\<exists>s' res. evalOp_store rs s qop = (s', res) \<and> frame s s' \<and>
           (case res of
              Inl err \<Rightarrow> evalOp (index_of cfg rs s) qop = Inl err
            | Inr r \<Rightarrow> free s \<le> r \<and> r < free s' \<and>
                       evalOp (index_of cfg rs s) qop = Inr (cells s' r))"
proof -
  consider (a) "Type qop = ''AND''" | (o) "Type qop = ''OR''"
    | (n) "Type qop = ''NOT''" | (u) "Type qop \<notin> {''AND'', ''OR'', ''NOT''}" by auto
  then show ?thesis
  proof cases
    case a
    then show ?thesis using queryAndLocked_store_refines [OF assms, of "Tags qop" cfg]
      by (auto simp: evalOp_store_def evalOp_def)
  next
    case o
    then show ?thesis using queryOrLocked_store_refines [OF assms, of "Tags qop" cfg]
      by (auto simp: evalOp_store_def evalOp_def)
  next
    case n
    show ?thesis
    proof (cases "\<exists>tag. Tags qop = [tag]")
      case True
      then obtain tag where t: "Tags qop = [tag]" by blast
      from queryNotLocked_store_refines [OF assms, of tag cfg]
      show ?thesis using n t by (auto simp: evalOp_store_def evalOp_def)
    next
      case False
      show ?thesis
      proof (cases "Tags qop")
        case Nil
        then show ?thesis using n by (simp add: evalOp_store_def evalOp_def frame_refl)
      next
        case (Cons tag more)
        with False obtain tag' more' where "more = tag' # more'" by (cases more) auto
        then show ?thesis using n Cons by (simp add: evalOp_store_def evalOp_def frame_refl)
      qed
    qed
  next
    case u
    then show ?thesis by (simp add: evalOp_store_def evalOp_def frame_refl)
  qed
qed

lemma complexLoop_store_refines:
  assumes "allocated rs s0" and "frame s0 s"
    and "\<forall>r. result = Some r \<longrightarrow> free s0 \<le> r \<and> r < free s"
  shows "\<exists>s' res. complexLoop_store rs s i result ops = (s', res) \<and> frame s0 s' \<and>
           (case res of
              Inl err \<Rightarrow> complexLoop (index_of cfg rs s0) i (map_option (cells s) result) ops = Inl err
            | Inr ro \<Rightarrow> complexLoop (index_of cfg rs s0) i (map_option (cells s) result) ops =
                         Inr (map_option (cells s') ro))"
  using assms(2,3)
proof (induction ops arbitrary: s i result)
  case Nil
  then show ?case by simp
next
  case (Cons qop ops)
  have al: "allocated rs s" using assms(1) Cons.prems(1) by (rule allocated_frame)
  have ix: "index_of cfg rs s = index_of cfg rs s0" using assms(1) Cons.prems(1) by (rule index_of_frame)
  from evalOp_store_refines [OF al, of qop cfg]
  obtain s1 res1 where ev: "evalOp_store rs s qop = (s1, res1)" and f1: "frame s s1"
    and r1: "case res1 of
               Inl err \<Rightarrow> evalOp (index_of cfg rs s0) qop = Inl err
             | Inr r \<Rightarrow> free s \<le> r \<and> r < free s1 \<and> evalOp (index_of cfg rs s0) qop = Inr (cells s1 r)"
    unfolding ix by blast
  have f01: "frame s0 s1" using Cons.prems(1) f1 by (rule frame_trans)
  show ?case
  proof (cases res1)
    case (Inl err)
    then show ?thesis using ev r1 f01 by simp
  next
    case (Inr p)
    with r1 have p: "free s \<le> p" "p < free s1"
      and evp: "evalOp (index_of cfg rs s0) qop = Inr (cells s1 p)" by simp_all
    have p0: "free s0 \<le> p" using p(1) Cons.prems(1) by (simp add: frame_def)
    show ?thesis
    proof (cases "i = 0")
      case True
      from Cons.IH [OF f01, of "Some p" "Suc i"] p0 p(2)
      obtain s' res where "complexLoop_store rs s1 (Suc i) (Some p) ops = (s', res)" "frame s0 s'"
        "case res of
           Inl err \<Rightarrow> complexLoop (index_of cfg rs s0) (Suc i) (map_option (cells s1) (Some p)) ops = Inl err
         | Inr ro \<Rightarrow> complexLoop (index_of cfg rs s0) (Suc i) (map_option (cells s1) (Some p)) ops =
                      Inr (map_option (cells s') ro)"
        by blast
      then show ?thesis using True ev Inr evp by (auto split: sum.splits)
    next
      case False
      show ?thesis
      proof (cases result)
        case None
        then show ?thesis using False ev Inr evp f01 by simp
      next
        case (Some r)
        with Cons.prems(2) have r: "free s0 \<le> r" "r < free s" by simp_all
        let ?s2 = "bitmap_And s1 r p"
        have f2: "frame s0 ?s2" and fr2: "free ?s2 = free s1"
          using And_frame [OF f01 r(1), of p] by simp_all
        have "cells s1 r = cells s r" using f1 r(2) by (simp add: frame_def)
        then have c2: "cells ?s2 r = cells s r \<inter> cells s1 p" by (simp add: bitmap_And_def)
        have "r < free ?s2" using r(2) f1 fr2 by (simp add: frame_def)
        with Cons.IH [OF f2, of "Some r" "Suc i"] r(1)
        obtain s' res where "complexLoop_store rs ?s2 (Suc i) (Some r) ops = (s', res)" "frame s0 s'"
          "case res of
             Inl err \<Rightarrow> complexLoop (index_of cfg rs s0) (Suc i) (map_option (cells ?s2) (Some r)) ops = Inl err
           | Inr ro \<Rightarrow> complexLoop (index_of cfg rs s0) (Suc i) (map_option (cells ?s2) (Some r)) ops =
                        Inr (map_option (cells s') ro)"
          by blast
        then show ?thesis using False Some ev Inr evp c2 by (auto split: sum.splits)
      qed
    qed
  qed
qed

lemma ComplexQuery_store_refines:
  assumes "allocated rs s"
  shows "\<exists>s' res. ComplexQuery_store rs s ops = (s', res) \<and> frame s s' \<and>
           (case res of
              Inl err \<Rightarrow> ComplexQuery (index_of cfg rs s) ops = Inl err
            | Inr ro \<Rightarrow> ComplexQuery (index_of cfg rs s) ops = Inr (map_option (cells s') ro))"
proof (cases "length ops = 0")
  case True
  obtain s' r where nb: "roaring_NewBitmap s = (s', r)" by (cases "roaring_NewBitmap s")
  from NewBitmap_frame [OF nb] show ?thesis using True nb
    by (auto simp: ComplexQuery_store_def ComplexQuery_def)
next
  case False
  from complexLoop_store_refines [OF assms frame_refl, of None 0 ops cfg]
  obtain s' res where "complexLoop_store rs s 0 None ops = (s', res)" "frame s s'"
    "case res of
       Inl err \<Rightarrow> complexLoop (index_of cfg rs s) 0 (map_option (cells s) None) ops = Inl err
     | Inr ro \<Rightarrow> complexLoop (index_of cfg rs s) 0 (map_option (cells s) None) ops =
                  Inr (map_option (cells s') ro)"
    by blast
  then show ?thesis using False
    by (auto simp: ComplexQuery_store_def ComplexQuery_def split: sum.splits)
qed

text \<open>
  Claim C9. \<open>ComplexQuery\<close> returns an error exactly when its list holds a NOT operation whose
  number of tags is not one, or an operation whose type is none of AND, OR and NOT; for every
  other list it returns a bitmap and no error; and with or without an error, the index is
  after the call what it was before.
\<close>

theorem ComplexQuery_error_iff:
  assumes "allocated rs s"
  shows "((\<exists>err. snd (ComplexQuery_store rs s ops) = Inl err) \<longleftrightarrow>
            (\<exists>qop\<in>set ops. (Type qop = ''NOT'' \<and> length (Tags qop) \<noteq> 1) \<or>
                            Type qop \<notin> {''AND'', ''OR'', ''NOT''})) \<and>
         (\<not> (\<exists>qop\<in>set ops. (Type qop = ''NOT'' \<and> length (Tags qop) \<noteq> 1) \<or>
                            Type qop \<notin> {''AND'', ''OR'', ''NOT''}) \<longrightarrow>
            (\<exists>r. snd (ComplexQuery_store rs s ops) = Inr (Some r))) \<and>
         index_of cfg rs (fst (ComplexQuery_store rs s ops)) = index_of cfg rs s"
proof -
  from ComplexQuery_store_refines [OF assms, of ops cfg]
  obtain s' res where cq: "ComplexQuery_store rs s ops = (s', res)" and f: "frame s s'"
    and rel: "case res of
                Inl err \<Rightarrow> ComplexQuery (index_of cfg rs s) ops = Inl err
              | Inr ro \<Rightarrow> ComplexQuery (index_of cfg rs s) ops = Inr (map_option (cells s') ro)"
    by blast
  have 1: "(\<exists>err. res = Inl err) \<longleftrightarrow> (\<exists>err. ComplexQuery (index_of cfg rs s) ops = Inl err)"
    using rel by (cases res) auto
  have 2: "(\<exists>r. res = Inr (Some r)) \<longleftrightarrow> (\<exists>b. ComplexQuery (index_of cfg rs s) ops = Inr (Some b))"
    using rel by (cases res) auto
  have 3: "index_of cfg rs s' = index_of cfg rs s" using assms f by (rule index_of_frame)
  show ?thesis
    using ComplexQuery_error_iff_value [of "index_of cfg rs s" ops] 1 2 3 by (simp add: cq)
qed

theorem ComplexQuery_error_iff_witness:
  "allocated example_refs example_store \<and>
   (\<exists>qop\<in>set [\<lparr>Type = ''OR'', Tags = [''vip'']\<rparr>, \<lparr>Type = ''NOT'', Tags = []\<rparr>].
       (Type qop = ''NOT'' \<and> length (Tags qop) \<noteq> 1) \<or> Type qop \<notin> {''AND'', ''OR'', ''NOT''}) \<and>
   (\<exists>err. snd (ComplexQuery_store example_refs example_store
       [\<lparr>Type = ''OR'', Tags = [''vip'']\<rparr>, \<lparr>Type = ''NOT'', Tags = []\<rparr>]) = Inl err) \<and>
   index_of DefaultConfig example_refs (fst (ComplexQuery_store example_refs example_store
       [\<lparr>Type = ''OR'', Tags = [''vip'']\<rparr>, \<lparr>Type = ''NOT'', Tags = []\<rparr>])) =
     index_of DefaultConfig example_refs example_store \<and>
   \<not> (\<exists>qop\<in>set [\<lparr>Type = ''OR'', Tags = [''vip'']\<rparr>, \<lparr>Type = ''NOT'', Tags = [''male'']\<rparr>].
       (Type qop = ''NOT'' \<and> length (Tags qop) \<noteq> 1) \<or> Type qop \<notin> {''AND'', ''OR'', ''NOT''}) \<and>
   (\<exists>r. snd (ComplexQuery_store example_refs example_store
       [\<lparr>Type = ''OR'', Tags = [''vip'']\<rparr>, \<lparr>Type = ''NOT'', Tags = [''male'']\<rparr>]) = Inr (Some r))"
proof -
  have a: "allocated example_refs example_store"
    by (simp add: allocated_def example_refs_def example_store_def)
  show ?thesis
    using a
      ComplexQuery_error_iff [OF a, of
          "[\<lparr>Type = ''OR'', Tags = [''vip'']\<rparr>, \<lparr>Type = ''NOT'', Tags = []\<rparr>]" DefaultConfig]
      ComplexQuery_error_iff [OF a, of
          "[\<lparr>Type = ''OR'', Tags = [''vip'']\<rparr>, \<lparr>Type = ''NOT'', Tags = [''male'']\<rparr>]" DefaultConfig]
    by simp
qed

text \<open>
  Claim C10. For every index state, \<open>ComplexQuery\<close> of the empty list of operations returns
  the empty bitmap and no error: neither the universe \<open>allObjects\<close> nor an argument error.
\<close>

theorem ComplexQuery_empty_ops: "ComplexQuery ts [] = Inr (Some {})"
  by (simp add: ComplexQuery_def)

subsection \<open>The index under mutation\<close>

lemma set_update_subset: "set (AList.update k v al) \<subseteq> insert (k, v) (set al)"
  by (induction al) auto

lemma set_delete_subset: "set (AList.delete k al) \<subseteq> set al"
  by (auto simp: AList.delete_eq)

lemma Union_update_grow:
  "(case map_of al k of None \<Rightarrow> {} | Some b \<Rightarrow> b) \<subseteq> v \<Longrightarrow>
   \<Union> (snd ` set (AList.update k v al)) = \<Union> (snd ` set al) \<union> v"
proof (induction al)
  case Nil
  then show ?case by simp
next
  case (Cons p al)
  then show ?case by (cases p) (auto split: if_splits)
qed

lemma covered_update:
  "covered ts \<Longrightarrow> b \<subseteq> a \<Longrightarrow> allObjects ts \<subseteq> a \<Longrightarrow>
   covered (ts\<lparr>tags := AList.update tag b (tags ts), allObjects := a\<rparr>)"
proof -
  assume c: "covered ts" and b: "b \<subseteq> a" and a: "allObjects ts \<subseteq> a"
  have "v \<subseteq> a" if "(k, v) \<in> set (AList.update tag b (tags ts))" for k v
  proof -
    from that set_update_subset [of tag b "tags ts"]
    have "(k, v) = (tag, b) \<or> (k, v) \<in> set (tags ts)" by blast
    then show ?thesis
    proof
      assume "(k, v) = (tag, b)"
      then show ?thesis using b by simp
    next
      assume "(k, v) \<in> set (tags ts)"
      then have "v \<in> snd ` set (tags ts)" by force
      then have "v \<subseteq> allObjects ts" using c unfolding covered_def by blast
      then show ?thesis using a by simp
    qed
  qed
  then have "x \<in> a" if "(k, v) \<in> set (AList.update tag b (tags ts))" and "x \<in> v" for k v x
    using that by (meson subsetD)
  then show ?thesis unfolding covered_def by auto
qed

lemma covered_lookup: "covered ts \<Longrightarrow> tagBitmap ts tag \<subseteq> allObjects ts"
proof (cases "map_of (tags ts) tag")
  case None
  then show ?thesis by (simp add: tagBitmap_def)
next
  case (Some b)
  then have "b \<in> snd ` set (tags ts)" by (force dest!: map_of_SomeD)
  moreover assume "covered ts"
  ultimately show ?thesis using Some unfolding covered_def tagBitmap_def by auto
qed

lemma AddTag_eq:
  "AddTag ts objectID tag =
     (ts\<lparr>tags := AList.update tag (insert objectID (tagBitmap ts tag)) (tags ts),
          allObjects := insert objectID (allObjects ts)\<rparr>, None)"
  by (simp add: AddTag_def tagBitmap_def)

lemma covered_AddTag: "covered ts \<Longrightarrow> covered (fst (AddTag ts objectID tag))"
  unfolding AddTag_eq fst_conv
  using covered_lookup [of ts tag] by (intro covered_update) auto

lemma allObjects_RemoveTag: "allObjects (fst (RemoveTag ts objectID tag)) = allObjects ts"
  by (simp add: RemoveTag_def Let_def split: option.splits)

lemma covered_RemoveTag: "covered ts \<Longrightarrow> covered (fst (RemoveTag ts objectID tag))"
proof (cases "map_of (tags ts) tag")
  case None
  assume "covered ts"
  then show ?thesis using None by (simp add: RemoveTag_def)
next
  case (Some b)
  assume c: "covered ts"
  have "b \<subseteq> allObjects ts" using covered_lookup [OF c, of tag] Some by (simp add: tagBitmap_def)
  then have "covered (ts\<lparr>tags := AList.update tag (b - {objectID}) (tags ts), allObjects := allObjects ts\<rparr>)"
    using c by (intro covered_update) auto
  moreover have "covered (ts\<lparr>tags := AList.delete tag (tags ts)\<rparr>)"
  proof -
    have "snd ` set (AList.delete tag (tags ts)) \<subseteq> snd ` set (tags ts)"
      using set_delete_subset [of tag "tags ts"] by (rule image_mono)
    then show ?thesis using c unfolding covered_def by auto
  qed
  ultimately show ?thesis using Some by (simp add: RemoveTag_def Let_def)
qed

lemma Union_addToTag_sub:
  assumes "\<Union> (snd ` set m) \<subseteq> a" and "objectID \<in> a"
  shows "\<Union> (snd ` set (addToTag objectID m t)) \<subseteq> a"
proof -
  let ?b = "(case map_of m t of None \<Rightarrow> {} | Some b \<Rightarrow> b)"
  have "?b \<subseteq> a"
  proof (cases "map_of m t")
    case None
    then show ?thesis by simp
  next
    case (Some b)
    then have "b \<in> snd ` set m" by (force dest!: map_of_SomeD)
    then show ?thesis using assms(1) Some by auto
  qed
  then have ins: "insert objectID ?b \<subseteq> a" using assms(2) by simp
  have "v \<subseteq> a" if "(k, v) \<in> set (AList.update t (insert objectID ?b) m)" for k v
  proof -
    from that set_update_subset [of t "insert objectID ?b" m]
    have "(k, v) = (t, insert objectID ?b) \<or> (k, v) \<in> set m" by blast
    then show ?thesis
    proof
      assume "(k, v) = (t, insert objectID ?b)"
      then show ?thesis using ins by simp
    next
      assume "(k, v) \<in> set m"
      then have "v \<in> snd ` set m" by force
      then show ?thesis using assms(1) by blast
    qed
  qed
  then have "x \<in> a" if "(k, v) \<in> set (AList.update t (insert objectID ?b) m)" and "x \<in> v" for k v x
    using that by (meson subsetD)
  then show ?thesis unfolding addToTag_def Let_def by auto
qed

lemma foldl_addToTag_sub:
  "\<Union> (snd ` set m) \<subseteq> a \<Longrightarrow> objectID \<in> a \<Longrightarrow>
   \<Union> (snd ` set (foldl (addToTag objectID) m tagNames)) \<subseteq> a"
  by (induction tagNames arbitrary: m) (simp_all add: Union_addToTag_sub)

lemma covered_BatchAddTags: "covered ts \<Longrightarrow> covered (fst (BatchAddTags ts objectID tagNames))"
  unfolding covered_def BatchAddTags_def
  by (simp, rule foldl_addToTag_sub) auto

lemma foldl_insert_pair:
  "foldl (\<lambda>(b, a) objectID. (insert objectID b, insert objectID a)) (b0, a0) xs =
     (b0 \<union> set xs, a0 \<union> set xs)"
  by (induction xs arbitrary: b0 a0) auto

lemma BatchAddObjectsToTag_eq:
  "BatchAddObjectsToTag ts objectIDs tag =
     (ts\<lparr>tags := AList.update tag (tagBitmap ts tag \<union> set objectIDs) (tags ts),
          allObjects := allObjects ts \<union> set objectIDs\<rparr>, None)"
  by (simp add: BatchAddObjectsToTag_def foldl_insert_pair tagBitmap_def)

lemma covered_BatchAddObjectsToTag:
  "covered ts \<Longrightarrow> covered (fst (BatchAddObjectsToTag ts objectIDs tag))"
  unfolding BatchAddObjectsToTag_eq fst_conv
  using covered_lookup [of ts tag] by (intro covered_update) auto

lemma covered_loadAll: "covered ts \<Longrightarrow> covered (fst (loadAll e ts data))"
proof (induction data arbitrary: ts)
  case Nil
  then show ?case by simp
next
  case (Cons p data)
  obtain tag buf where p: "p = (tag, buf)" by (cases p)
  show ?case
  proof (cases "ReadFrom e buf")
    case (Inl err)
    then show ?thesis using Cons.prems p by simp
  next
    case (Inr bitmap)
    have "covered (ts\<lparr>tags := AList.update tag bitmap (tags ts), allObjects := allObjects ts \<union> bitmap\<rparr>)"
      using Cons.prems by (intro covered_update) auto
    then show ?thesis using Inr p Cons.IH by simp
  qed
qed

lemma covered_LoadSnapshot: "covered ts \<Longrightarrow> covered (fst (LoadSnapshot e ts w filePath))"
  by (auto simp: LoadSnapshot_def covered_loadAll split: sum.splits)

lemma covered_recoverAll: "covered ts \<Longrightarrow> covered (fst (recoverAll e w prefix ts errs keys))"
proof (induction keys arbitrary: ts errs)
  case Nil
  then show ?case by simp
next
  case (Cons key keys)
  have upd: "covered (ts\<lparr>tags := AList.update tag bitmap (tags ts), allObjects := allObjects ts \<union> bitmap\<rparr>)"
    for tag bitmap using Cons.prems by (intro covered_update) auto
  show ?case using Cons.prems Cons.IH upd
    by (auto simp: Let_def split: reply.splits sum.splits)
qed

lemma RecoverFromRedis_fst:
  "fst (RecoverFromRedis e ts w) = ts \<or>
   (\<exists>keys. fst (RecoverFromRedis e ts w) = fst (recoverAll e w (KeyPrefix (config ts)) ts [] keys))"
proof (cases "redis_Scan e w (KeyPrefix (config ts) @ ''*'')")
  case (Pair scanned iterErr)
  show ?thesis
  proof (cases iterErr)
    case (Some err)
    then show ?thesis using Pair by (simp add: RecoverFromRedis_def)
  next
    case None
    let ?keys = "filter (\<lambda>key. key \<noteq> KeyPrefix (config ts) @ ''_meta'') scanned"
    obtain ts' r where r: "recoverAll e w (KeyPrefix (config ts)) ts [] ?keys = (ts', r)"
      by (cases "recoverAll e w (KeyPrefix (config ts)) ts [] ?keys")
    then have "fst (RecoverFromRedis e ts w) = ts'"
      using Pair None by (cases r) (simp_all add: RecoverFromRedis_def)
    then show ?thesis using r by (metis fst_conv)
  qed
qed

lemma covered_RecoverFromRedis: "covered ts \<Longrightarrow> covered (fst (RecoverFromRedis e ts w))"
  using RecoverFromRedis_fst [of e ts w] covered_recoverAll [of ts e w] by auto

lemma covered_LoadTagFromRedis: "covered ts \<Longrightarrow> covered (fst (LoadTagFromRedis e ts w tag))"
proof -
  assume c: "covered ts"
  have upd: "covered (ts\<lparr>tags := AList.update tag bitmap (tags ts), allObjects := allObjects ts \<union> bitmap\<rparr>)"
    for bitmap using c by (intro covered_update) auto
  show ?thesis using c upd
    by (auto simp: LoadTagFromRedis_def Let_def split: reply.splits sum.splits)
qed

lemma covered_exec: "covered ts \<Longrightarrow> covered (exec e ts op)"
  by (cases op)
     (simp_all add: covered_AddTag covered_RemoveTag covered_BatchAddTags
        covered_BatchAddObjectsToTag covered_LoadSnapshot covered_RecoverFromRedis
        covered_LoadTagFromRedis)

lemma covered_run: "covered ts \<Longrightarrow> covered (run e ts ops)"
  unfolding run_def by (induction ops arbitrary: ts) (simp_all add: covered_exec)

lemma New_state: "New e w cfg = Inr ts0 \<Longrightarrow> ts0 = \<lparr>tags = [], allObjects = {}, config = cfg\<rparr>"
  by (auto simp: New_def split: option.splits)

lemma lookup_sub_Union: "(case map_of al k of None \<Rightarrow> {} | Some b \<Rightarrow> b) \<subseteq> \<Union> (snd ` set al)"
proof (cases "map_of al k")
  case None
  then show ?thesis by simp
next
  case (Some b)
  then have "b \<in> snd ` set al" by (force dest!: map_of_SomeD)
  then show ?thesis using Some by auto
qed

lemma Union_update_lookup:
  "\<Union> (snd ` set (AList.update k ((case map_of al k of None \<Rightarrow> {} | Some b \<Rightarrow> b) \<union> v) al)) =
     \<Union> (snd ` set al) \<union> v"
  using Union_update_grow [of al k "(case map_of al k of None \<Rightarrow> {} | Some b \<Rightarrow> b) \<union> v"]
    lookup_sub_Union [of al k]
  by auto

lemma exact_AddTag: "exact ts \<Longrightarrow> exact (fst (AddTag ts objectID tag))"
  using Union_update_lookup [of tag "tags ts" "{objectID}"]
  by (simp add: exact_def AddTag_def)

lemma exact_BatchAddObjectsToTag: "exact ts \<Longrightarrow> exact (fst (BatchAddObjectsToTag ts objectIDs tag))"
  using Union_update_lookup [of tag "tags ts" "set objectIDs"]
  by (simp add: exact_def BatchAddObjectsToTag_eq tagBitmap_def)

lemma Union_addToTag: "\<Union> (snd ` set (addToTag objectID m t)) = insert objectID (\<Union> (snd ` set m))"
  using Union_update_lookup [of t m "{objectID}"] by (simp add: addToTag_def)

lemma Union_foldl_addToTag:
  "tagNames \<noteq> [] \<Longrightarrow>
   \<Union> (snd ` set (foldl (addToTag objectID) m tagNames)) = insert objectID (\<Union> (snd ` set m))"
proof (induction tagNames arbitrary: m)
  case Nil
  then show ?case by simp
next
  case (Cons t tagNames)
  show ?case
  proof (cases "tagNames = []")
    case True
    then show ?thesis by (simp add: Union_addToTag)
  next
    case False
    then show ?thesis using Cons.IH [of "addToTag objectID m t"] by (simp add: Union_addToTag)
  qed
qed

lemma exact_BatchAddTags:
  "exact ts \<Longrightarrow> tagNames \<noteq> [] \<Longrightarrow> exact (fst (BatchAddTags ts objectID tagNames))"
  by (simp add: exact_def BatchAddTags_def Union_foldl_addToTag)

lemma exact_exec: "exact ts \<Longrightarrow> addsOnly op \<Longrightarrow> exact (exec e ts op)"
  by (cases op) (simp_all add: exact_AddTag exact_BatchAddObjectsToTag exact_BatchAddTags)

lemma exact_run: "exact ts \<Longrightarrow> \<forall>op\<in>set ops. addsOnly op \<Longrightarrow> exact (run e ts ops)"
  unfolding run_def by (induction ops arbitrary: ts) (simp_all add: exact_exec)







text \<open>
  Claim C2, as amended. At every state reached from a new index by any sequence of public
  operations, \<open>allObjects\<close> contains the union of the bitmaps of all tags; the two are equal
  as long as the sequence consists of \<open>AddTag\<close>, \<open>BatchAddObjectsToTag\<close> and \<open>BatchAddTags\<close>
  with at least one tag name; and \<open>RemoveTag\<close> leaves \<open>allObjects\<close> as it is, also when it
  removes the last occurrence of an object.
\<close>

theorem allObjects_covers_tags:
  assumes "New e w cfg = Inr ts0"
  shows "\<Union> (snd ` set (tags (run e ts0 ops))) \<subseteq> allObjects (run e ts0 ops) \<and>
         ((\<forall>op\<in>set ops. addsOnly op) \<longrightarrow>
            allObjects (run e ts0 ops) = \<Union> (snd ` set (tags (run e ts0 ops)))) \<and>
         allObjects (fst (RemoveTag ts objectID tag)) = allObjects ts"
proof -
  have ts0: "ts0 = \<lparr>tags = [], allObjects = {}, config = cfg\<rparr>" using assms by (rule New_state)
  have "covered ts0" and "exact ts0" by (simp_all add: ts0 covered_def exact_def)
  then have "covered (run e ts0 ops)"
    and "(\<forall>op\<in>set ops. addsOnly op) \<longrightarrow> exact (run e ts0 ops)"
    by (simp_all add: covered_run exact_run)
  then show ?thesis by (simp add: covered_def exact_def allObjects_RemoveTag)
qed

theorem allObjects_covers_tags_witness:
  "New mem_env Map.empty DefaultConfig = Inr new_index \<and>
   \<Union> (snd ` set (tags (run mem_env new_index [OpAddTag 1 ''vip'', OpAddTag 2 ''male''])))
     \<subseteq> allObjects (run mem_env new_index [OpAddTag 1 ''vip'', OpAddTag 2 ''male'']) \<and>
   addsOnly (OpAddTag 1 ''vip'' :: (string \<rightharpoonup> mem_file) operation) \<and>
   addsOnly (OpAddTag 2 ''male'' :: (string \<rightharpoonup> mem_file) operation) \<and>
   allObjects (run mem_env new_index [OpAddTag 1 ''vip'', OpAddTag 2 ''male'']) = {1, 2} \<and>
   allObjects (fst (RemoveTag example_index 1 ''vip'')) = {1, 2}"
proof -
  have n: "New mem_env (Map.empty :: string \<rightharpoonup> mem_file) DefaultConfig = Inr new_index"
    by (simp add: New_def mem_env_def new_index_def)
  show ?thesis
    using n allObjects_covers_tags [OF n, of "[OpAddTag 1 ''vip'', OpAddTag 2 ''male'']" example_index 1 "''vip''"]
    by (simp add: run_def AddTag_def new_index_def example_index_def insert_commute)
qed

text \<open>
  The claim as stated fails: after \<open>AddTag(1, vip)\<close> and \<open>RemoveTag(1, vip)\<close> on a new index
  no tag is left, and \<open>allObjects\<close> still holds object 1.
\<close>

theorem allObjects_after_RemoveTag_counterexample:
  "New mem_env Map.empty DefaultConfig = Inr new_index \<and>
   allObjects (run mem_env new_index [OpAddTag 1 ''vip'', OpRemoveTag 1 ''vip'']) = {1} \<and>
   \<Union> (snd ` set (tags (run mem_env new_index [OpAddTag 1 ''vip'', OpRemoveTag 1 ''vip'']))) = {} \<and>
   allObjects (run mem_env new_index [OpAddTag 1 ''vip'', OpRemoveTag 1 ''vip'']) \<noteq>
     \<Union> (snd ` set (tags (run mem_env new_index [OpAddTag 1 ''vip'', OpRemoveTag 1 ''vip''])))"
  by (simp add: New_def mem_env_def new_index_def run_def AddTag_def RemoveTag_def)

text \<open>
  Claim C8. \<open>AddTag\<close> is idempotent: calling it twice with the same object and tag leaves the
  same index, and the same cardinality of the tag, as calling it once; and adding a pair
  that is already present does not change the cardinality of the tag.
\<close>

theorem AddTag_idempotent:
  "AddTag (fst (AddTag ts objectID tag)) objectID tag = AddTag ts objectID tag \<and>
   GetTagCount (fst (AddTag (fst (AddTag ts objectID tag)) objectID tag)) tag =
     GetTagCount (fst (AddTag ts objectID tag)) tag \<and>
   (HasTag ts objectID tag \<longrightarrow>
      GetTagCount (fst (AddTag ts objectID tag)) tag = GetTagCount ts tag)"
proof -
  have 1: "AddTag (fst (AddTag ts objectID tag)) objectID tag = AddTag ts objectID tag"
    by (simp add: AddTag_def update_conv')
  have "GetTagCount (fst (AddTag ts objectID tag)) tag = GetTagCount ts tag"
    if "HasTag ts objectID tag"
    using that by (auto simp: HasTag_def GetTagCount_def AddTag_def update_conv' insert_absorb
        split: option.splits)
  then show ?thesis using 1 by simp
qed

theorem AddTag_idempotent_witness:
  "HasTag example_index 1 ''vip'' \<and>
   GetTagCount (fst (AddTag example_index 1 ''vip'')) ''vip'' = Inr 1 \<and>
   GetTagCount example_index ''vip'' = Inr 1 \<and>
   AddTag (fst (AddTag example_index 1 ''vip'')) 1 ''vip'' = AddTag example_index 1 ''vip''"
  using AddTag_idempotent [of example_index 1 "''vip''"]
  by (simp add: HasTag_def GetTagCount_def example_index_def)

text \<open>
  Claim C4. No reachable state of the index holds a tag with an empty bitmap. The code
  breaks this: \<open>BatchAddObjectsToTag\<close> creates the tag before its loop, so with an empty
  list of objects on a new index it leaves the tag in the map with an empty bitmap, and
  \<open>GetAllTags\<close> returns it.
\<close>

theorem BatchAddObjectsToTag_empty_list_keeps_empty_tag:
  "New mem_env Map.empty DefaultConfig = Inr new_index \<and>
   tags (fst (BatchAddObjectsToTag new_index [] ''x'')) = [(''x'', {})] \<and>
   GetAllTags (fst (BatchAddObjectsToTag new_index [] ''x'')) = [''x''] \<and>
   GetTagCount (fst (BatchAddObjectsToTag new_index [] ''x'')) ''x'' = Inr 0"
  by (simp add: New_def mem_env_def new_index_def BatchAddObjectsToTag_def GetAllTags_def
      GetTagCount_def)

text \<open>
  What \<open>RemoveTag\<close> does when it removes the last object of a tag: the tag leaves the map,
  \<open>GetAllTags\<close> no longer returns it and \<open>GetTagCount\<close> returns 0 and no error.
\<close>

lemma RemoveTag_last_object:
  assumes "map_of (tags ts) tag = Some b" and "b \<subseteq> {objectID}"
  shows "tag \<notin> set (GetAllTags (fst (RemoveTag ts objectID tag))) \<and>
         GetTagCount (fst (RemoveTag ts objectID tag)) tag = Inr 0"
proof -
  have "b - {objectID} = {}" using assms(2) by auto
  then have "fst (RemoveTag ts objectID tag) = ts\<lparr>tags := AList.delete tag (tags ts)\<rparr>"
    using assms(1) by (simp add: RemoveTag_def)
  then show ?thesis
    using delete_notin_dom [of tag "tags ts"]
    by (simp add: GetAllTags_def GetTagCount_def delete_conv')
qed

text \<open>
  The other operations on tags keep every bitmap of the index non-empty: \<open>AddTag\<close>,
  \<open>RemoveTag\<close>, \<open>BatchAddTags\<close>, and \<open>BatchAddObjectsToTag\<close> with at least one object.
\<close>

lemma nonEmpty_update:
  assumes "{} \<notin> snd ` set al" and "v \<noteq> {}"
  shows "{} \<notin> snd ` set (AList.update k v al)"
proof
  assume "{} \<in> snd ` set (AList.update k v al)"
  then obtain k' where "(k', {}) \<in> set (AList.update k v al)" by force
  with set_update_subset [of k v al] have "(k', {}) = (k, v) \<or> (k', {}) \<in> set al" by blast
  then show False using assms by force
qed

lemma nonEmpty_delete: "{} \<notin> snd ` set al \<Longrightarrow> {} \<notin> snd ` set (AList.delete k al)"
  using set_delete_subset [of k al] by (meson image_mono subsetD)

lemma nonEmpty_foldl_addToTag:
  "{} \<notin> snd ` set m \<Longrightarrow> {} \<notin> snd ` set (foldl (addToTag objectID) m tagNames)"
  by (induction tagNames arbitrary: m) (simp_all add: addToTag_def nonEmpty_update)

lemma nonEmptyTags_exec:
  assumes "nonEmptyTags ts" and "keepsNonEmpty op"
  shows "nonEmptyTags (exec e ts op)"
proof (cases op)
  case (OpAddTag objectID tag)
  then show ?thesis using assms(1)
    by (simp add: nonEmptyTags_def AddTag_eq nonEmpty_update)
next
  case (OpRemoveTag objectID tag)
  show ?thesis
  proof (cases "map_of (tags ts) tag")
    case None
    then show ?thesis using assms(1) OpRemoveTag by (simp add: RemoveTag_def)
  next
    case (Some b)
    show ?thesis
    proof (cases "b - {objectID} = {}")
      case True
      then show ?thesis using assms(1) OpRemoveTag Some
        by (simp add: RemoveTag_def nonEmptyTags_def nonEmpty_delete)
    next
      case False
      then show ?thesis using assms(1) OpRemoveTag Some
        by (simp add: RemoveTag_def nonEmptyTags_def nonEmpty_update)
    qed
  qed
next
  case (OpBatchAddTags objectID tagNames)
  then show ?thesis using assms(1)
    by (simp add: nonEmptyTags_def BatchAddTags_def nonEmpty_foldl_addToTag)
next
  case (OpBatchAddObjectsToTag objectIDs tag)
  then have "set objectIDs \<noteq> {}" using assms(2) by simp
  then show ?thesis using assms(1) OpBatchAddObjectsToTag
    by (simp add: nonEmptyTags_def BatchAddObjectsToTag_eq nonEmpty_update)
qed (use assms(2) in simp_all)

lemma nonEmptyTags_run:
  "nonEmptyTags ts \<Longrightarrow> \<forall>op\<in>set ops. keepsNonEmpty op \<Longrightarrow> nonEmptyTags (run e ts ops)"
  unfolding run_def by (induction ops arbitrary: ts) (simp_all add: nonEmptyTags_exec)

subsection \<open>Snapshots\<close>

lemma loadAll_ok:
  assumes "distinct (map fst data)"
    and "map (\<lambda>(tag, buf). (tag, ReadFrom e buf)) data =
         map (\<lambda>(tag, bitmap). (tag, Inr bitmap)) snapshot"
  shows "\<exists>ts'. loadAll e ts data = (ts', None) \<and>
           map_of (tags ts') = map_of (tags ts) ++ map_of snapshot \<and>
           allObjects ts' = allObjects ts \<union> \<Union> (snd ` set snapshot) \<and>
           config ts' = config ts"
  using assms
proof (induction data arbitrary: ts snapshot)
  case Nil
  then show ?case by simp
next
  case (Cons p data)
  obtain tag buf where p: "p = (tag, buf)" by (cases p)
  from Cons.prems(2) obtain q rest where snap: "snapshot = q # rest" by (cases snapshot) auto
  obtain tag' bitmap where q: "q = (tag', bitmap)" by (cases q)
  from Cons.prems(2) have tag': "tag' = tag" and rd: "ReadFrom e buf = Inr bitmap"
    and rest: "map (\<lambda>(tag, buf). (tag, ReadFrom e buf)) data =
               map (\<lambda>(tag, bitmap). (tag, Inr bitmap)) rest"
    unfolding p snap q by simp_all
  have "map fst (map (\<lambda>(tag, buf). (tag, ReadFrom e buf)) data) =
        map fst (map (\<lambda>(tag, bitmap). (tag, Inr bitmap :: error + bitmap)) rest)"
    using rest by simp
  then have keys: "map fst data = map fst rest" by (simp add: case_prod_unfold comp_def)
  have notin: "tag \<notin> fst ` set rest" using Cons.prems(1) keys unfolding p
    by (metis distinct.simps(2) fst_conv list.simps(9) set_map)
  let ?ts1 = "ts\<lparr>tags := AList.update tag bitmap (tags ts), allObjects := allObjects ts \<union> bitmap\<rparr>"
  from Cons.IH [of rest ?ts1] Cons.prems(1) rest
  obtain ts' where l: "loadAll e ?ts1 data = (ts', None)"
    and m: "map_of (tags ts') = map_of (tags ?ts1) ++ map_of rest"
    and a: "allObjects ts' = allObjects ?ts1 \<union> \<Union> (snd ` set rest)"
    and c: "config ts' = config ?ts1"
    by auto
  have "map_of rest tag = None" using notin by (simp add: map_of_eq_None_iff)
  then have M: "map_of (tags ts') = map_of (tags ts) ++ map_of snapshot"
    unfolding m snap q tag' by (auto simp: update_conv' map_add_def fun_eq_iff split: option.splits)
  have L: "loadAll e ts (p # data) = (ts', None)" using l rd p by simp
  have A: "allObjects ts' = allObjects ts \<union> \<Union> (snd ` set snapshot)"
    unfolding a snap q by auto
  have C: "config ts' = config ts" using c by simp
  show ?case using L M A C by blast
qed


text \<open>
  Claim C3, as amended. When the file is read and decoded and every entry of the snapshot
  is a bitmap that can be read, \<open>LoadSnapshot\<close> returns no error; each tag named in the
  snapshot then maps to the snapshot's bitmap for that tag, which replaces the bitmap the
  tag had before; tags not named in the snapshot are unchanged; and every loaded bitmap is
  joined into \<open>allObjects\<close>.
\<close>

theorem LoadSnapshot_replaces:
  assumes "os_ReadFile e w filePath = Inr jsonData"
    and "json_Unmarshal e jsonData = Inr data"
    and "distinct (map fst data)"
    and "map (\<lambda>(tag, buf). (tag, ReadFrom e buf)) data =
         map (\<lambda>(tag, bitmap). (tag, Inr bitmap)) snapshot"
  shows "\<exists>ts'. LoadSnapshot e ts w filePath = (ts', None) \<and>
           (\<forall>tag. map_of (tags ts') tag =
              (case map_of snapshot tag of
                 Some bitmap \<Rightarrow> Some bitmap
               | None \<Rightarrow> map_of (tags ts) tag)) \<and>
           allObjects ts' = allObjects ts \<union> \<Union> (snd ` set snapshot)"
proof -
  from loadAll_ok [OF assms(3,4), of ts]
  obtain ts' where "loadAll e ts data = (ts', None)"
    and m: "map_of (tags ts') = map_of (tags ts) ++ map_of snapshot"
    and "allObjects ts' = allObjects ts \<union> \<Union> (snd ` set snapshot)"
    by auto
  moreover have "map_of (tags ts') tag =
      (case map_of snapshot tag of Some bitmap \<Rightarrow> Some bitmap | None \<Rightarrow> map_of (tags ts) tag)"
    for tag unfolding m by (simp add: map_add_def split: option.splits)
  ultimately show ?thesis using assms(1,2) by (simp add: LoadSnapshot_def)
qed

theorem LoadSnapshot_replaces_witness:
  "os_ReadFile mem_env [''snap.json'' \<mapsto> [(''vip'', {2})]] ''snap.json'' = Inr [(''vip'', {2})] \<and>
   json_Unmarshal mem_env [(''vip'', {2})] = Inr [(''vip'', {2})] \<and>
   distinct (map fst [(''vip'', {2 :: 32 word})]) \<and>
   (\<exists>ts'. LoadSnapshot mem_env \<lparr>tags = [(''vip'', {1}), (''male'', {1})], allObjects = {1}, config = DefaultConfig\<rparr>
       [''snap.json'' \<mapsto> [(''vip'', {2})]] ''snap.json'' = (ts', None) \<and>
     map_of (tags ts') ''vip'' = Some {2} \<and> map_of (tags ts') ''male'' = Some {1} \<and>
     allObjects ts' = {1, 2})"
proof -
  have 1: "os_ReadFile mem_env [''snap.json'' \<mapsto> [(''vip'', {2})]] ''snap.json'' = Inr [(''vip'', {2})]"
    by (simp add: mem_env_def)
  have 2: "json_Unmarshal mem_env [(''vip'', {2})] = Inr [(''vip'', {2})]"
    by (simp add: mem_env_def)
  have 3: "distinct (map fst [(''vip'', {2 :: 32 word})])" by simp
  have 4: "map (\<lambda>(tag, buf). (tag, ReadFrom mem_env buf)) [(''vip'', {2})] =
           map (\<lambda>(tag, bitmap). (tag, Inr bitmap)) [(''vip'', {2})]"
    by (simp add: mem_env_def)
  show ?thesis
    using 1 2 3 LoadSnapshot_replaces [OF 1 2 3 4,
        of "\<lparr>tags = [(''vip'', {1}), (''male'', {1})], allObjects = {1}, config = DefaultConfig\<rparr>"]
    by (auto simp: insert_commute)
qed

text \<open>
  The claim as stated fails: the tag vip holds object 1, the snapshot has object 2 for vip,
  and after loading vip holds object 2 alone, not the union.
\<close>

theorem LoadSnapshot_counterexample:
  "map_of (tags \<lparr>tags = [(''vip'', {1})], allObjects = {1}, config = DefaultConfig\<rparr>) ''vip'' = Some {1} \<and>
   LoadSnapshot mem_env \<lparr>tags = [(''vip'', {1})], allObjects = {1}, config = DefaultConfig\<rparr>
       [''snap.json'' \<mapsto> [(''vip'', {2})]] ''snap.json'' =
     (\<lparr>tags = [(''vip'', {2})], allObjects = {1, 2}, config = DefaultConfig\<rparr>, None) \<and>
   map_of (tags (fst (LoadSnapshot mem_env
       \<lparr>tags = [(''vip'', {1})], allObjects = {1}, config = DefaultConfig\<rparr>
       [''snap.json'' \<mapsto> [(''vip'', {2})]] ''snap.json''))) ''vip'' \<noteq> Some ({1} \<union> {2})"
  by (simp add: LoadSnapshot_def mem_env_def insert_commute)










end
